theory Spec2Isabelle
  imports Main
begin

section \<open>Causal stack traces across asynchronous boundaries (trace.js)\<close>

text \<open>
  A shallow embedding of \<^verbatim>\<open>src/trace.js\<close>. The module keeps three pieces of global state
  (\<^verbatim>\<open>executionScopeInits\<close>, \<^verbatim>\<open>executionScopeDepth\<close>, \<^verbatim>\<open>traces\<close>) and reads and writes
  \<^verbatim>\<open>Error.stackTraceLimit\<close>; the four async hooks are the operations. Every function below
  takes the state and returns the new one; the one exception the code can raise, a
  \<^verbatim>\<open>TypeError\<close>, is a value.
\<close>

subsection \<open>JavaScript values and raw call sites\<close>

text \<open>
  What the accessors of a V8 call site return: a string or a number, or \<^verbatim>\<open>null\<close>, or
  \<^verbatim>\<open>undefined\<close>. Strict equality \<^verbatim>\<open>===\<close> on these values is equality of the datatype
  (\<^verbatim>\<open>null\<close> and \<^verbatim>\<open>undefined\<close> are different values, each identical to itself only).
\<close>

datatype jsval = JSUndefined | JSNull | JSString string | JSNumber int

text \<open>JavaScript's \<^verbatim>\<open>!v\<close>.\<close>

fun falsy :: "jsval \<Rightarrow> bool" where
  "falsy JSUndefined = True"
| "falsy JSNull = True"
| "falsy (JSString s) = (s = [])"
| "falsy (JSNumber n) = (n = 0)"

text \<open>
  A raw frame descriptor, by the results of the three accessors the module calls on it.
\<close>

record callSite =
  getFileName :: jsval
  getLineNumber :: jsval
  getColumnNumber :: jsval

text \<open>The one exception the module can raise.\<close>

datatype error = TypeError

subsection \<open>Frame handles: WeakRef, WeakProxy, cloneCallSite (lines 6-45)\<close>

text \<open>
  The values a \<^verbatim>\<open>WeakRef\<close> can be built over, as far as the module tells them apart: a
  primitive value, or an object, which here is a call site. \<open>truthy\<close> is the negation of
  JavaScript's \<^verbatim>\<open>!v\<close>: every object is truthy.
\<close>

datatype jsany = Primitive jsval | Object callSite

fun truthy :: "jsany \<Rightarrow> bool" where
  "truthy (Primitive p) = (\<not> falsy p)"
| "truthy (Object c) = True"

text \<open>
  An object of the class \<^verbatim>\<open>WeakRef\<close> has one field, \<^verbatim>\<open>_weakMap\<close>, a \<^verbatim>\<open>WeakMap\<close> that the
  constructor (line 8) fills with the single entry \<^verbatim>\<open>[this, value]\<close>; \<^verbatim>\<open>deref()\<close> (line 12)
  reads the map at the key \<^verbatim>\<open>this\<close>. A \<^verbatim>\<open>WeakMap\<close> is a map from the identities of objects to
  values; \<^verbatim>\<open>get\<close> at a key without an entry returns \<^verbatim>\<open>undefined\<close>, which is \<open>None\<close>.
\<close>

type_synonym ref = nat

type_synonym 'v WeakMap = "ref \<rightharpoonup> 'v"

definition new_WeakMap :: "ref \<Rightarrow> 'v \<Rightarrow> 'v WeakMap" where
  "new_WeakMap key v = [key \<mapsto> v]"

definition WeakMap_get :: "'v WeakMap \<Rightarrow> ref \<Rightarrow> 'v option" where
  "WeakMap_get m key = m key"

text \<open>
  The engine's garbage collector, which is not code of the module: by the language's
  definition of a \<^verbatim>\<open>WeakMap\<close> a collection may drop an entry only when the entry's key is
  an object that can no longer be reached. \<open>live\<close> is the set of the objects that can be
  reached at the moment of a collection, and \<open>collect\<close> is the collection that drops
  all it may.
\<close>

definition collect :: "'v WeakMap \<Rightarrow> ref set \<Rightarrow> 'v WeakMap" where
  "collect m live = m |` live"

text \<open>
  The module reads the map of a \<^verbatim>\<open>WeakRef\<close> at the key \<^verbatim>\<open>this\<close> and nowhere else, and never
  writes it after the constructor. So the hooks below carry a \<^verbatim>\<open>WeakRef\<close> as that one entry
  of its map: \<open>Some value\<close>, or \<open>None\<close> for a map without it. The constructor and \<^verbatim>\<open>deref()\<close>
  on this form are \<open>new_WeakRef\<close> and \<open>deref\<close>; \<open>WeakRef_at this m\<close> is the form of the object
  with the identity \<open>this\<close> and the map \<open>m\<close>.
\<close>

datatype 'v WeakRef = WeakRef (weakMap: "'v option")


definition new_WeakRef :: "'v \<Rightarrow> 'v WeakRef" where
  "new_WeakRef v = WeakRef (Some v)"

definition deref :: "'v WeakRef \<Rightarrow> 'v option" where
  "deref this = weakMap this"

text \<open>
  \<^verbatim>\<open>WeakProxy(value, handler)\<close> returns a \<^verbatim>\<open>Proxy\<close> whose target is \<^verbatim>\<open>new WeakRef(value)\<close>. The
  module passes no handler, so the handler is the default one, and the proxy is modelled
  by its target. The \<^verbatim>\<open>get\<close> trap first tests \<^verbatim>\<open>!object\<close> on what \<^verbatim>\<open>deref()\<close> returned (line 21):
  \<open>takes_absent_branch\<close> is that test, true for \<^verbatim>\<open>undefined\<close> and for every other falsy
  value, and then the trap returns \<^verbatim>\<open>undefined\<close>. Otherwise it returns the property of the
  object, a method bound to the object. A property is modelled by the function that gives
  the result of the accessor on a call site: \<open>Some r\<close> is the bound method whose call
  returns \<open>r\<close>, and \<open>None\<close> is \<^verbatim>\<open>undefined\<close>, which is also what a truthy primitive has under
  the name of an accessor.
\<close>

type_synonym handle = "jsany WeakRef"

definition WeakProxy :: "jsany \<Rightarrow> handle" where
  "WeakProxy v = new_WeakRef v"

definition takes_absent_branch :: "handle \<Rightarrow> bool" where
  "takes_absent_branch target =
     (case deref target of
        None \<Rightarrow> True
      | Some object \<Rightarrow> \<not> truthy object)"

definition WeakProxy_get :: "handle \<Rightarrow> (callSite \<Rightarrow> 'a) \<Rightarrow> 'a option" where
  "WeakProxy_get target property =
     (if takes_absent_branch target then None
      else (case deref target of
              Some (Object object) \<Rightarrow> Some (property object)
            | _ \<Rightarrow> None))"

definition cloneCallSite :: "callSite \<Rightarrow> handle" where
  "cloneCallSite callSite = WeakProxy (Object callSite)"

text \<open>
  A call \<^verbatim>\<open>a.getFileName()\<close> on a handle reads the property through the trap and calls
  what it got; calling \<^verbatim>\<open>undefined\<close> throws a \<^verbatim>\<open>TypeError\<close>.
\<close>

definition call :: "handle \<Rightarrow> (callSite \<Rightarrow> jsval) \<Rightarrow> error + jsval" where
  "call proxy method =
     (case WeakProxy_get proxy method of
        None \<Rightarrow> Inl TypeError
      | Some result \<Rightarrow> Inr result)"

subsection \<open>Global state\<close>

text \<open>
  Async ids are natural numbers, \<open>0\<close> being the reserved value "no trigger". The depth is a
  JavaScript number that \<^verbatim>\<open>asyncAfter\<close> decrements without a check, hence an \<open>int\<close>.
  \<^verbatim>\<open>Error.stackTraceLimit\<close> is the configured maximum depth, a number of frames.
\<close>

record state =
  executionScopeInits :: "nat set"
  executionScopeDepth :: int
  traces :: "nat \<rightharpoonup> handle list"
  stackTraceLimit :: nat

definition initial :: "nat \<Rightarrow> state" where
  "initial limit =
     \<lparr>executionScopeInits = {}, executionScopeDepth = 0, traces = Map.empty,
      stackTraceLimit = limit\<rparr>"

subsection \<open>The frame source and getCallSites (lines 47-59, 136-141)\<close>

text \<open>
  The filter attached to \<^verbatim>\<open>chain.filter\<close> (lines 136-141) keeps a frame whose file name is
  falsy or is neither of the two internal names.
\<close>

definition chain_filter :: "callSite list \<Rightarrow> callSite list" where
  "chain_filter frames =
     filter (\<lambda>callSite. let name = getFileName callSite in
               falsy name \<or> (name \<noteq> JSString ''async_hooks.js''
                              \<and> name \<noteq> JSString ''internal/async_hooks.js''))
            frames"

text \<open>
  Modelled from the spec: \<^verbatim>\<open>chain.callSite\<close> belongs to the external library
  \<^verbatim>\<open>stack-chain\<close>, which is not part of the repository. Section 6 of the specification
  describes it as the frame source: it returns the frames of the running synchronous call
  chain, innermost first, no more of them than the maximum-frame-depth setting in force
  allows, without the \<^verbatim>\<open>slice\<close> innermost ones; with \<^verbatim>\<open>filter: true\<close> the attached filter is
  applied and with \<^verbatim>\<open>extend: false\<close> nothing is appended. \<open>stack\<close> is the whole call chain at
  the moment of the call, innermost frame first.
\<close>

definition chain_callSite :: "state \<Rightarrow> callSite list \<Rightarrow> nat \<Rightarrow> callSite list" where
  "chain_callSite s stack slice = chain_filter (drop slice (take (stackTraceLimit s) stack))"

definition getCallSites :: "callSite list \<Rightarrow> state \<Rightarrow> nat \<Rightarrow> handle list \<times> state" where
  "getCallSites stack s skip =
     (let limit = stackTraceLimit s;
          s1 = s\<lparr>stackTraceLimit := limit + skip\<rparr>;
          callSites = chain_callSite s1 stack skip;
          s2 = s1\<lparr>stackTraceLimit := limit\<rparr>
      in (map cloneCallSite callSites, s2))"

subsection \<open>Frame equality (lines 61-73)\<close>

text \<open>
  The three accessors of \<open>a\<close> are called first; those of \<open>b\<close> are called in the \<^verbatim>\<open>&&\<close> chain
  of the return statement, each only when the comparison before it held.
\<close>

definition equalCallSite :: "handle \<Rightarrow> handle \<Rightarrow> error + bool" where
  "equalCallSite a b =
     (case call a getFileName of Inl e \<Rightarrow> Inl e | Inr aFile \<Rightarrow>
     (case call a getLineNumber of Inl e \<Rightarrow> Inl e | Inr aLine \<Rightarrow>
     (case call a getColumnNumber of Inl e \<Rightarrow> Inl e | Inr aColumn \<Rightarrow>
        if aFile = JSNull \<or> aLine = JSNull \<or> aColumn = JSNull then Inr False
        else
          (case call b getFileName of Inl e \<Rightarrow> Inl e | Inr bFile \<Rightarrow>
             if aFile \<noteq> bFile then Inr False
             else
               (case call b getLineNumber of Inl e \<Rightarrow> Inl e | Inr bLine \<Rightarrow>
                  if aLine \<noteq> bLine then Inr False
                  else
                    (case call b getColumnNumber of Inl e \<Rightarrow> Inl e | Inr bColumn \<Rightarrow>
                       Inr (aColumn = bColumn)))))))"

subsection \<open>The init hook (lines 75-115)\<close>

text \<open>
  The loop of lines 92-97, by the value of \<open>i\<close> before the test \<^verbatim>\<open>i--\<close>: at \<open>0\<close> the test
  fails; otherwise \<open>i\<close> is decremented, the loop goes on only while the trace has more
  than one frame, and the body compares \<^verbatim>\<open>parentTrace[i]\<close> (at the decremented \<open>i\<close>) with
  the last frame of the trace and pops it when they are equal. A frame that is not equal
  is passed over: the loop has no other exit, but for an exception of the comparison.
\<close>

fun asyncInit_loop :: "nat \<Rightarrow> handle list \<Rightarrow> handle list \<Rightarrow> error + handle list" where
  "asyncInit_loop 0 parentTrace trace = Inr trace"
| "asyncInit_loop (Suc i) parentTrace trace =
     (if length trace > 1
      then (case equalCallSite (parentTrace ! i) (last trace) of
              Inl e \<Rightarrow> Inl e
            | Inr equal \<Rightarrow>
                asyncInit_loop i parentTrace (if equal then butlast trace else trace))
      else Inr trace)"

text \<open>
  \<^verbatim>\<open>traces.get(triggerAsyncId)\<close> is \<^verbatim>\<open>undefined\<close> when the map has no entry. Reading
  \<^verbatim>\<open>.length\<close> of it (line 92) throws a \<^verbatim>\<open>TypeError\<close>; \<^verbatim>\<open>push.apply(trace, undefined)\<close>
  (line 102) pushes nothing. \<open>stack\<close> is the call chain at the moment the hook runs.
\<close>

definition asyncInit :: "callSite list \<Rightarrow> state \<Rightarrow> nat \<Rightarrow> string \<Rightarrow> nat \<Rightarrow> error + state" where
  "asyncInit stack s asyncId ty triggerAsyncId =
     (let (trace0, s1) = getCallSites stack s 2 in
      case (if triggerAsyncId \<in> executionScopeInits s1
            then (case traces s1 triggerAsyncId of
                    None \<Rightarrow> Inl TypeError
                  | Some parentTrace \<Rightarrow>
                      asyncInit_loop (length parentTrace) parentTrace trace0)
            else Inr trace0) of
        Inl e \<Rightarrow> Inl e
      | Inr trace1 \<Rightarrow>
          let trace2 = (if triggerAsyncId \<noteq> 0
                        then trace1 @ (case traces s1 triggerAsyncId of
                                         None \<Rightarrow> [] | Some t \<Rightarrow> t)
                        else trace1);
              trace3 = take (stackTraceLimit s1) trace2
          in Inr (s1\<lparr>traces := (traces s1)(asyncId \<mapsto> trace3),
                      executionScopeInits := insert asyncId (executionScopeInits s1)\<rparr>))"

subsection \<open>The before, after and destroy hooks (lines 117-130)\<close>

definition asyncBefore :: "state \<Rightarrow> state" where
  "asyncBefore s =
     (let s1 = (if executionScopeDepth s = 0 then s\<lparr>executionScopeInits := {}\<rparr> else s)
      in s1\<lparr>executionScopeDepth := executionScopeDepth s1 + 1\<rparr>)"

definition asyncAfter :: "state \<Rightarrow> state" where
  "asyncAfter s = s\<lparr>executionScopeDepth := executionScopeDepth s - 1\<rparr>"

definition asyncDestroy :: "state \<Rightarrow> nat \<Rightarrow> state" where
  "asyncDestroy s asyncId = s\<lparr>traces := (traces s)(asyncId := None)\<rparr>"

subsection \<open>The extension of a stack trace (lines 143-151)\<close>

text \<open>
  The function attached to \<^verbatim>\<open>chain.extend\<close> pushes \<^verbatim>\<open>traces.get(id)\<close> onto the frames, \<^verbatim>\<open>id\<close>
  being the running execution's async id; pushing \<^verbatim>\<open>undefined\<close> pushes nothing. \<open>compose\<close>
  is the part it appends.
\<close>

definition compose :: "state \<Rightarrow> nat \<Rightarrow> handle list" where
  "compose s asyncId = (case traces s asyncId of None \<Rightarrow> [] | Some lastTrace \<Rightarrow> lastTrace)"

definition chain_extend :: "state \<Rightarrow> nat \<Rightarrow> handle list \<Rightarrow> handle list" where
  "chain_extend s asyncId frames = frames @ compose s asyncId"

subsection \<open>Lifecycle events\<close>

text \<open>
  The hooks registered at lines 156-161, as events. An \<open>Init\<close> event carries the call
  chain at the moment of the call besides the hook's arguments.
\<close>

datatype event =
    Init nat string nat "callSite list"
  | Before nat
  | After nat
  | Destroy nat

fun step :: "state \<Rightarrow> event \<Rightarrow> error + state" where
  "step s (Init asyncId ty triggerAsyncId stack) = asyncInit stack s asyncId ty triggerAsyncId"
| "step s (Before asyncId) = Inr (asyncBefore s)"
| "step s (After asyncId) = Inr (asyncAfter s)"
| "step s (Destroy asyncId) = Inr (asyncDestroy s asyncId)"

fun run :: "state \<Rightarrow> event list \<Rightarrow> error + state" where
  "run s [] = Inr s"
| "run s (e # es) = (case step s e of Inl err \<Rightarrow> Inl err | Inr s' \<Rightarrow> run s' es)"

subsection \<open>The dedup walk as the specification words it\<close>

text \<open>
  Section 4.4, step 2, of the specification: "Walk backward from the end of parent; while
  more than one frame remains in the newly captured sequence and the current parent frame
  equals the last frame of the captured sequence, remove that last frame from the
  captured sequence and continue walking backward in parent." The condition of this walk
  includes the equality, so it ends at the first parent frame that is not equal. It is
  defined here to be compared with \<open>asyncInit_loop\<close>, which is the code.
\<close>

fun spec_walk :: "nat \<Rightarrow> handle list \<Rightarrow> handle list \<Rightarrow> handle list" where
  "spec_walk 0 parent captured = captured"
| "spec_walk (Suc i) parent captured =
     (if length captured > 1 \<and> equalCallSite (parent ! i) (last captured) = Inr True
      then spec_walk i parent (butlast captured)
      else captured)"

subsection \<open>Auxiliary notions for the statements\<close>

text \<open>A handle for which \<^verbatim>\<open>deref()\<close> finds a call site.\<close>

definition alive :: "handle \<Rightarrow> bool" where
  "alive h = (\<exists>c. deref h = Some (Object c))"

text \<open>
  The nesting depth of a sequence of events, as the specification has it (section 3): the
  number of dispatches entered and not yet left. \<open>matched\<close> says that every exit in the
  sequence has an enter before it that no earlier exit has taken. They are defined on the
  events alone, to be compared with the variable \<^verbatim>\<open>executionScopeDepth\<close> of the code.
\<close>

fun scope_change :: "event \<Rightarrow> int" where
  "scope_change (Before asyncId) = 1"
| "scope_change (After asyncId) = - 1"
| "scope_change e = 0"

definition nesting :: "event list \<Rightarrow> int" where
  "nesting evs = sum_list (map scope_change evs)"

fun matched_from :: "int \<Rightarrow> event list \<Rightarrow> bool" where
  "matched_from d [] = True"
| "matched_from d (e # es) = (0 \<le> d + scope_change e \<and> matched_from (d + scope_change e) es)"

definition matched :: "event list \<Rightarrow> bool" where
  "matched evs = matched_from 0 evs"

text \<open>One step of the loop on the trace: what the body does to it at parent frame \<open>p\<close>.\<close>

definition pop_if_equal :: "handle list \<Rightarrow> handle \<Rightarrow> handle list" where
  "pop_if_equal trace p =
     (if 1 < length trace \<and> equalCallSite p (last trace) = Inr True
      then butlast trace else trace)"

text \<open>
  An \<open>Init\<close> event whose own async id is the reserved value \<open>0\<close>. Node never issues that id
  to a resource.
\<close>

fun tracks_root :: "event \<Rightarrow> bool" where
  "tracks_root (Init asyncId ty triggerAsyncId stack) = (asyncId = 0)"
| "tracks_root e = False"

text \<open>Frames for the examples: a raw call site at a position, and its handle.\<close>

abbreviation frameAt :: "string \<Rightarrow> int \<Rightarrow> int \<Rightarrow> callSite" where
  "frameAt file line column \<equiv>
     \<lparr>getFileName = JSString file, getLineNumber = JSNumber line,
      getColumnNumber = JSNumber column\<rparr>"

abbreviation handleAt :: "string \<Rightarrow> int \<Rightarrow> int \<Rightarrow> handle" where
  "handleAt file line column \<equiv> cloneCallSite (frameAt file line column)"

text \<open>
  The two innermost frames of every call chain that reaches \<^verbatim>\<open>chain.callSite\<close> from the
  init hook: \<^verbatim>\<open>getCallSites\<close> (line 51) and \<^verbatim>\<open>asyncInit\<close> (line 76).
\<close>

abbreviation hookFrames :: "callSite list" where
  "hookFrames \<equiv> [frameAt ''trace.js'' 51 27, frameAt ''trace.js'' 76 17]"

section \<open>Properties\<close>

subsection \<open>Handles\<close>

lemma deref_cloneCallSite: "deref (cloneCallSite c) = Some (Object c)"
  by (simp add: cloneCallSite_def WeakProxy_def new_WeakRef_def deref_def)

lemma alive_cloneCallSite: "alive (cloneCallSite c)"
  by (simp add: alive_def deref_cloneCallSite)

lemma alive_iff: "alive h \<longleftrightarrow> (\<exists>c. h = cloneCallSite c)"
  by (cases h)
     (auto simp add: alive_def deref_def cloneCallSite_def WeakProxy_def new_WeakRef_def)

lemma present_cloneCallSite: "\<not> takes_absent_branch (cloneCallSite c)"
  by (simp add: takes_absent_branch_def deref_cloneCallSite)

lemma WeakProxy_get_cloneCallSite: "WeakProxy_get (cloneCallSite c) property = Some (property c)"
  by (simp add: WeakProxy_get_def present_cloneCallSite deref_cloneCallSite)

lemma call_cloneCallSite: "call (cloneCallSite c) accessor = Inr (accessor c)"
  by (simp add: call_def WeakProxy_get_cloneCallSite)

lemma equalCallSite_cloneCallSite:
  "equalCallSite (cloneCallSite x) (cloneCallSite y) =
     Inr (getFileName x \<noteq> JSNull \<and> getLineNumber x \<noteq> JSNull \<and> getColumnNumber x \<noteq> JSNull \<and>
          getFileName x = getFileName y \<and> getLineNumber x = getLineNumber y \<and>
          getColumnNumber x = getColumnNumber y)"
  by (simp add: equalCallSite_def call_cloneCallSite)

lemma equalCallSite_alive: "alive a \<Longrightarrow> alive b \<Longrightarrow> \<exists>r. equalCallSite a b = Inr r"
  by (auto simp add: alive_iff equalCallSite_cloneCallSite)

subsection \<open>The map of a WeakRef under collection\<close>


lemma collect_dead: "key \<notin> live \<Longrightarrow> WeakMap_get (collect m live) key = None"
  by (simp add: collect_def WeakMap_get_def)



text \<open>
  A map keyed by another object than the wrapper loses the entry at a collection that
  the wrapper survives and the key does not.
\<close>

lemma other_key_collected:
  "key \<noteq> this \<Longrightarrow> WeakMap_get (collect (new_WeakMap key v) {this}) key = None"
  by (simp add: collect_dead)

subsection \<open>Frame capture\<close>

lemma getCallSites_eq:
  "getCallSites stack s skip =
     (map cloneCallSite (chain_filter (drop skip (take (stackTraceLimit s + skip) stack))), s)"
  by (simp add: getCallSites_def chain_callSite_def Let_def)

lemma length_chain_filter: "length (chain_filter frames) \<le> length frames"
  by (simp add: chain_filter_def)

lemma length_getCallSites:
  "length (fst (getCallSites stack s skip)) \<le> stackTraceLimit s"
proof -
  have "length (chain_filter (drop skip (take (stackTraceLimit s + skip) stack)))
          \<le> length (drop skip (take (stackTraceLimit s + skip) stack))"
    by (rule length_chain_filter)
  also have "\<dots> \<le> stackTraceLimit s" by simp
  finally show ?thesis by (simp add: getCallSites_eq)
qed

lemma alive_getCallSites: "list_all alive (fst (getCallSites stack s skip))"
  by (simp add: getCallSites_eq list_all_iff alive_cloneCallSite)

subsection \<open>The loop of the init hook\<close>

lemma foldl_pop_short: "length trace \<le> 1 \<Longrightarrow> foldl pop_if_equal trace ps = trace"
  by (induction ps) (simp_all add: pop_if_equal_def)

lemma alive_butlast: "list_all alive trace \<Longrightarrow> list_all alive (butlast trace)"
  by (auto simp add: list_all_iff dest: in_set_butlastD)

lemma asyncInit_loop_foldl:
  "i \<le> length parentTrace \<Longrightarrow> list_all alive parentTrace \<Longrightarrow> list_all alive trace \<Longrightarrow>
   asyncInit_loop i parentTrace trace
     = Inr (foldl pop_if_equal trace (rev (take i parentTrace)))"
proof (induction i arbitrary: trace)
  case 0
  then show ?case by simp
next
  case (Suc i)
  then have lt: "i < length parentTrace" and le: "i \<le> length parentTrace" by simp_all
  have tk: "rev (take (Suc i) parentTrace) = parentTrace ! i # rev (take i parentTrace)"
    using lt by (simp add: take_Suc_conv_app_nth)
  show ?case
  proof (cases "1 < length trace")
    case True
    then have "trace \<noteq> []" by auto
    with Suc.prems(3) have "alive (last trace)" by (simp add: list_all_iff)
    moreover from Suc.prems(2) lt have "alive (parentTrace ! i)" by (simp add: list_all_iff)
    ultimately obtain r where r: "equalCallSite (parentTrace ! i) (last trace) = Inr r"
      using equalCallSite_alive by blast
    have next_alive: "list_all alive (if r then butlast trace else trace)"
      using Suc.prems(3) by (simp add: alive_butlast)
    have "pop_if_equal trace (parentTrace ! i) = (if r then butlast trace else trace)"
      using True r by (simp add: pop_if_equal_def)
    with True r Suc.IH [OF le Suc.prems(2) next_alive] show ?thesis by (simp add: tk)
  next
    case False
    then have short: "length trace \<le> 1" by simp
    have "pop_if_equal trace (parentTrace ! i) = trace"
      using False by (simp add: pop_if_equal_def)
    then show ?thesis using False foldl_pop_short [OF short] by (simp add: tk)
  qed
qed

lemma foldl_pop_nonempty: "trace \<noteq> [] \<Longrightarrow> foldl pop_if_equal trace ps \<noteq> []"
proof (induction ps arbitrary: trace)
  case Nil
  then show ?case by simp
next
  case (Cons p ps)
  have "pop_if_equal trace p \<noteq> []"
  proof (cases "1 < length trace")
    case True
    then have "butlast trace \<noteq> []" by (cases trace) auto
    with Cons.prems show ?thesis by (simp add: pop_if_equal_def)
  next
    case False
    with Cons.prems show ?thesis by (simp add: pop_if_equal_def)
  qed
  then show ?case using Cons.IH by simp
qed

lemma foldl_pop_take: "\<exists>k. foldl pop_if_equal trace ps = take k trace"
proof (induction ps arbitrary: trace)
  case Nil
  have "trace = take (length trace) trace" by simp
  then show ?case by (metis foldl_Nil)
next
  case (Cons p ps)
  obtain k where k: "foldl pop_if_equal (pop_if_equal trace p) ps = take k (pop_if_equal trace p)"
    using Cons.IH by blast
  have "\<exists>m. pop_if_equal trace p = take m trace"
  proof (cases "1 < length trace \<and> equalCallSite p (last trace) = Inr True")
    case True
    then have "pop_if_equal trace p = take (length trace - 1) trace"
      by (simp add: pop_if_equal_def butlast_conv_take)
    then show ?thesis by blast
  next
    case False
    then have "pop_if_equal trace p = take (length trace) trace"
      by (auto simp add: pop_if_equal_def)
    then show ?thesis by blast
  qed
  then obtain m where "pop_if_equal trace p = take m trace" by blast
  with k have "foldl pop_if_equal trace (p # ps) = take (min k m) trace" by simp
  then show ?case by blast
qed

lemma alive_foldl_pop: "list_all alive trace \<Longrightarrow> list_all alive (foldl pop_if_equal trace ps)"
proof -
  assume a: "list_all alive trace"
  obtain k where "foldl pop_if_equal trace ps = take k trace" using foldl_pop_take by blast
  with a show ?thesis by (auto simp add: list_all_iff dest: in_set_takeD)
qed

subsection \<open>The outcomes of the init hook\<close>

lemma asyncInit_recent:
  "triggerAsyncId \<in> executionScopeInits s \<Longrightarrow> traces s triggerAsyncId = Some parentTrace \<Longrightarrow>
   list_all alive parentTrace \<Longrightarrow>
   asyncInit stack s asyncId ty triggerAsyncId =
     Inr (s\<lparr>traces := (traces s)(asyncId \<mapsto>
                take (stackTraceLimit s)
                  (foldl pop_if_equal (fst (getCallSites stack s 2)) (rev parentTrace)
                   @ (if triggerAsyncId \<noteq> 0 then parentTrace else []))),
            executionScopeInits := insert asyncId (executionScopeInits s)\<rparr>)"
proof -
  assume recent: "triggerAsyncId \<in> executionScopeInits s"
    and stored: "traces s triggerAsyncId = Some parentTrace"
    and alive: "list_all alive parentTrace"
  have "asyncInit_loop (length parentTrace) parentTrace (fst (getCallSites stack s 2))
      = Inr (foldl pop_if_equal (fst (getCallSites stack s 2))
               (rev (take (length parentTrace) parentTrace)))"
    using alive alive_getCallSites by (intro asyncInit_loop_foldl) simp_all
  then have "asyncInit_loop (length parentTrace) parentTrace
        (map cloneCallSite (chain_filter (drop 2 (take (stackTraceLimit s + 2) stack))))
      = Inr (foldl pop_if_equal
               (map cloneCallSite (chain_filter (drop 2 (take (stackTraceLimit s + 2) stack))))
               (rev parentTrace))"
    by (simp add: getCallSites_eq)
  with recent stored show ?thesis
    by (simp add: asyncInit_def getCallSites_eq Let_def)
qed

lemma asyncInit_recent_untracked:
  "triggerAsyncId \<in> executionScopeInits s \<Longrightarrow> traces s triggerAsyncId = None \<Longrightarrow>
   asyncInit stack s asyncId ty triggerAsyncId = Inl TypeError"
  by (simp add: asyncInit_def getCallSites_eq Let_def)

lemma asyncInit_not_recent:
  "triggerAsyncId \<notin> executionScopeInits s \<Longrightarrow>
   asyncInit stack s asyncId ty triggerAsyncId =
     Inr (s\<lparr>traces := (traces s)(asyncId \<mapsto>
                take (stackTraceLimit s)
                  (fst (getCallSites stack s 2)
                   @ (if triggerAsyncId \<noteq> 0 then compose s triggerAsyncId else []))),
            executionScopeInits := insert asyncId (executionScopeInits s)\<rparr>)"
  by (simp add: asyncInit_def getCallSites_eq Let_def compose_def)

lemma asyncInit_cases:
  assumes "asyncInit stack s asyncId ty triggerAsyncId = Inr s'"
  obtains trace where
    "s' = s\<lparr>traces := (traces s)(asyncId \<mapsto> take (stackTraceLimit s) trace),
            executionScopeInits := insert asyncId (executionScopeInits s)\<rparr>"
proof (cases "triggerAsyncId \<in> executionScopeInits s")
  case True
  show ?thesis
  proof (cases "traces s triggerAsyncId")
    case None
    with True assms show ?thesis by (simp add: asyncInit_recent_untracked)
  next
    case (Some parentTrace)
    show ?thesis
    proof (cases "asyncInit_loop (length parentTrace) parentTrace
                    (map cloneCallSite (chain_filter (drop 2 (take (stackTraceLimit s + 2) stack))))")
      case (Inl e)
      with True Some assms show ?thesis
        by (simp add: asyncInit_def getCallSites_eq Let_def)
    next
      case (Inr trace1)
      with True Some assms have
        "s' = s\<lparr>traces := (traces s)(asyncId \<mapsto> take (stackTraceLimit s)
                    (trace1 @ (if triggerAsyncId \<noteq> 0 then parentTrace else []))),
                executionScopeInits := insert asyncId (executionScopeInits s)\<rparr>"
        by (simp add: asyncInit_def getCallSites_eq Let_def split: if_splits)
      then show ?thesis by (rule that)
    qed
  qed
next
  case False
  from assms that show ?thesis unfolding asyncInit_not_recent [OF False] by blast
qed

subsection \<open>Invariants of a run\<close>

lemma step_stackTraceLimit: "step s e = Inr s' \<Longrightarrow> stackTraceLimit s' = stackTraceLimit s"
  by (cases e)
     (auto simp add: asyncBefore_def asyncAfter_def asyncDestroy_def Let_def
        elim!: asyncInit_cases)

lemma run_stackTraceLimit: "run s evs = Inr s' \<Longrightarrow> stackTraceLimit s' = stackTraceLimit s"
proof (induction evs arbitrary: s)
  case Nil
  then show ?case by simp
next
  case (Cons e evs)
  from Cons.prems obtain s1 where s1: "step s e = Inr s1" and rest: "run s1 evs = Inr s'"
    by (auto split: sum.splits)
  from step_stackTraceLimit [OF s1] Cons.IH [OF rest] show ?case by simp
qed

lemma step_depth_bound:
  assumes "step s e = Inr s'"
    and "\<forall>i tr. traces s i = Some tr \<longrightarrow> length tr \<le> stackTraceLimit s"
  shows "\<forall>i tr. traces s' i = Some tr \<longrightarrow> length tr \<le> stackTraceLimit s'"
proof (cases e)
  case (Init asyncId ty triggerAsyncId stack)
  with assms(1) have "asyncInit stack s asyncId ty triggerAsyncId = Inr s'" by simp
  then obtain trace where
    "s' = s\<lparr>traces := (traces s)(asyncId \<mapsto> take (stackTraceLimit s) trace),
            executionScopeInits := insert asyncId (executionScopeInits s)\<rparr>"
    by (rule asyncInit_cases)
  with assms(2) show ?thesis by auto
next
  case (Before asyncId)
  with assms show ?thesis by (auto simp add: asyncBefore_def Let_def split: if_splits)
next
  case (After asyncId)
  with assms show ?thesis by (auto simp add: asyncAfter_def)
next
  case (Destroy asyncId)
  with assms show ?thesis by (auto simp add: asyncDestroy_def split: if_splits)
qed

lemma run_depth_bound:
  "run s evs = Inr s' \<Longrightarrow>
   \<forall>i tr. traces s i = Some tr \<longrightarrow> length tr \<le> stackTraceLimit s \<Longrightarrow>
   \<forall>i tr. traces s' i = Some tr \<longrightarrow> length tr \<le> stackTraceLimit s'"
proof (induction evs arbitrary: s)
  case Nil
  then show ?case by simp
next
  case (Cons e evs)
  from Cons.prems(1) obtain s1 where s1: "step s e = Inr s1" and rest: "run s1 evs = Inr s'"
    by (auto split: sum.splits)
  from step_depth_bound [OF s1 Cons.prems(2)] Cons.IH [OF rest] show ?case by blast
qed

lemma step_root_not_recent:
  "step s e = Inr s' \<Longrightarrow> \<not> tracks_root e \<Longrightarrow> 0 \<notin> executionScopeInits s \<Longrightarrow>
   0 \<notin> executionScopeInits s'"
  by (cases e)
     (auto simp add: asyncBefore_def asyncAfter_def asyncDestroy_def Let_def
        elim!: asyncInit_cases split: if_splits)

lemma run_root_not_recent:
  "run s evs = Inr s' \<Longrightarrow> \<forall>e\<in>set evs. \<not> tracks_root e \<Longrightarrow> 0 \<notin> executionScopeInits s \<Longrightarrow>
   0 \<notin> executionScopeInits s'"
proof (induction evs arbitrary: s)
  case Nil
  then show ?case by simp
next
  case (Cons e evs)
  from Cons.prems(1) obtain s1 where s1: "step s e = Inr s1" and rest: "run s1 evs = Inr s'"
    by (auto split: sum.splits)
  from Cons.prems(2) have e: "\<not> tracks_root e" and es: "\<forall>e\<in>set evs. \<not> tracks_root e"
    by simp_all
  from Cons.IH [OF rest es step_root_not_recent [OF s1 e Cons.prems(3)]] show ?case .
qed

text \<open>Every stored handle is alive: the store only ever receives handles that \<open>cloneCallSite\<close> made.\<close>

lemma asyncInit_stored_alive:
  assumes "asyncInit stack s asyncId ty triggerAsyncId = Inr s'"
    and inv: "\<forall>i tr. traces s i = Some tr \<longrightarrow> list_all alive tr"
  shows "\<forall>i tr. traces s' i = Some tr \<longrightarrow> list_all alive tr"
proof -
  let ?captured = "fst (getCallSites stack s 2)"
  have cap: "list_all alive ?captured" by (rule alive_getCallSites)
  have "\<exists>trace. list_all alive trace \<and>
          s' = s\<lparr>traces := (traces s)(asyncId \<mapsto> take (stackTraceLimit s) trace),
                  executionScopeInits := insert asyncId (executionScopeInits s)\<rparr>"
  proof (cases "triggerAsyncId \<in> executionScopeInits s")
    case True
    show ?thesis
    proof (cases "traces s triggerAsyncId")
      case None
      with True assms(1) show ?thesis by (simp add: asyncInit_recent_untracked)
    next
      case (Some parentTrace)
      with inv have p: "list_all alive parentTrace" by blast
      have "list_all alive (foldl pop_if_equal ?captured (rev parentTrace)
                             @ (if triggerAsyncId \<noteq> 0 then parentTrace else []))"
        using p alive_foldl_pop [OF cap] by simp
      with assms(1) show ?thesis unfolding asyncInit_recent [OF True Some p] by blast
    qed
  next
    case False
    have "list_all alive (compose s triggerAsyncId)"
      using inv by (auto simp add: compose_def split: option.splits)
    with cap have "list_all alive (?captured
                     @ (if triggerAsyncId \<noteq> 0 then compose s triggerAsyncId else []))"
      by simp
    with assms(1) show ?thesis unfolding asyncInit_not_recent [OF False] by blast
  qed
  then obtain trace where a: "list_all alive trace"
    and s': "s' = s\<lparr>traces := (traces s)(asyncId \<mapsto> take (stackTraceLimit s) trace),
                  executionScopeInits := insert asyncId (executionScopeInits s)\<rparr>"
    by blast
  from a have "list_all alive (take (stackTraceLimit s) trace)"
    by (auto simp add: list_all_iff dest: in_set_takeD)
  with inv s' show ?thesis by auto
qed

lemma step_stored_alive:
  assumes "step s e = Inr s'"
    and "\<forall>i tr. traces s i = Some tr \<longrightarrow> list_all alive tr"
  shows "\<forall>i tr. traces s' i = Some tr \<longrightarrow> list_all alive tr"
proof (cases e)
  case (Init asyncId ty triggerAsyncId stack)
  with assms(1) have "asyncInit stack s asyncId ty triggerAsyncId = Inr s'" by simp
  then show ?thesis using assms(2) by (rule asyncInit_stored_alive)
next
  case (Before asyncId)
  with assms show ?thesis by (auto simp add: asyncBefore_def Let_def split: if_splits)
next
  case (After asyncId)
  with assms show ?thesis by (auto simp add: asyncAfter_def)
next
  case (Destroy asyncId)
  with assms show ?thesis by (auto simp add: asyncDestroy_def split: if_splits)
qed

lemma run_stored_alive:
  "run s evs = Inr s' \<Longrightarrow> \<forall>i tr. traces s i = Some tr \<longrightarrow> list_all alive tr \<Longrightarrow>
   \<forall>i tr. traces s' i = Some tr \<longrightarrow> list_all alive tr"
proof (induction evs arbitrary: s)
  case Nil
  then show ?case by simp
next
  case (Cons e evs)
  from Cons.prems(1) obtain s1 where s1: "step s e = Inr s1" and rest: "run s1 evs = Inr s'"
    by (auto split: sum.splits)
  from step_stored_alive [OF s1 Cons.prems(2)] Cons.IH [OF rest] show ?case by blast
qed

lemma reachable_stored_alive:
  "run (initial limit) evs = Inr s \<Longrightarrow> traces s i = Some tr \<Longrightarrow> list_all alive tr"
proof -
  assume r: "run (initial limit) evs = Inr s" and t: "traces s i = Some tr"
  have "\<forall>i tr. traces (initial limit) i = Some tr \<longrightarrow> list_all alive tr"
    by (simp add: initial_def)
  with r have "\<forall>i tr. traces s i = Some tr \<longrightarrow> list_all alive tr" by (rule run_stored_alive)
  with t show ?thesis by blast
qed

subsection \<open>The depth and the nesting of the events\<close>

lemma step_depth:
  "step s e = Inr s' \<Longrightarrow> executionScopeDepth s' = executionScopeDepth s + scope_change e"
  by (cases e)
     (auto simp add: asyncBefore_def asyncAfter_def asyncDestroy_def Let_def
        elim!: asyncInit_cases)

lemma run_depth:
  "run s evs = Inr s' \<Longrightarrow> executionScopeDepth s' = executionScopeDepth s + nesting evs"
proof (induction evs arbitrary: s)
  case Nil
  then show ?case by (simp add: nesting_def)
next
  case (Cons e evs)
  from Cons.prems obtain s1 where s1: "step s e = Inr s1" and rest: "run s1 evs = Inr s'"
    by (auto split: sum.splits)
  from step_depth [OF s1] Cons.IH [OF rest] show ?case by (simp add: nesting_def)
qed

lemma matched_from_nesting: "matched_from d evs \<Longrightarrow> 0 \<le> d \<Longrightarrow> 0 \<le> d + nesting evs"
proof (induction evs arbitrary: d)
  case Nil
  then show ?case by (simp add: nesting_def)
next
  case (Cons e evs)
  from Cons.prems(1) have "0 \<le> d + scope_change e" and "matched_from (d + scope_change e) evs"
    by simp_all
  with Cons.IH [of "d + scope_change e"] show ?case by (simp add: nesting_def add.assoc)
qed

lemma step_inits:
  "step s e = Inr s' \<Longrightarrow>
     (if (\<exists>asyncId. e = Before asyncId) \<and> executionScopeDepth s = 0
      then executionScopeInits s' = {}
      else executionScopeInits s \<subseteq> executionScopeInits s')"
  by (cases e)
     (auto simp add: asyncBefore_def asyncAfter_def asyncDestroy_def Let_def
        elim!: asyncInit_cases split: if_splits)

section \<open>The claims\<close>

subsection \<open>C1: the dedup walk\<close>

text \<open>
  C1, as amended. In a state that a run has reached, when the trigger is in
  \<^verbatim>\<open>executionScopeInits\<close> and has a stored sequence \<open>parentTrace\<close>, the loop of the init hook
  ends without an exception and the hook stores, cut to the limit, the walked capture
  followed by \<open>parentTrace\<close> (when the trigger is not \<open>0\<close>). The walk visits the frames of
  \<open>parentTrace\<close> from the last to the first; at each of them, if more than one captured
  frame remains and the parent frame equals the last captured frame, that frame is
  removed, and otherwise the capture is left as it is and the walk goes on with the next
  parent frame: a parent frame that is not equal does not end the walk. What remains is
  a prefix of the capture, and it is not empty unless the capture was: the last
  remaining frame is never removed.
\<close>

theorem asyncInit_dedup_walk:
  "run (initial limit) evs = Inr s \<Longrightarrow>
   triggerAsyncId \<in> executionScopeInits s \<Longrightarrow> traces s triggerAsyncId = Some parentTrace \<Longrightarrow>
   (let captured = fst (getCallSites stack s 2);
        walked = foldl (\<lambda>trace p. if 1 < length trace \<and> equalCallSite p (last trace) = Inr True
                                    then butlast trace else trace)
                       captured (rev parentTrace)
    in asyncInit_loop (length parentTrace) parentTrace captured = Inr walked
       \<and> (\<exists>s'. asyncInit stack s asyncId ty triggerAsyncId = Inr s' \<and>
              traces s' asyncId =
                Some (take limit (walked @ (if triggerAsyncId \<noteq> 0 then parentTrace else []))))
       \<and> (\<exists>k. walked = take k captured)
       \<and> (captured \<noteq> [] \<longrightarrow> walked \<noteq> []))"
proof -
  assume r: "run (initial limit) evs = Inr s"
    and recent: "triggerAsyncId \<in> executionScopeInits s"
    and stored: "traces s triggerAsyncId = Some parentTrace"
  let ?captured = "fst (getCallSites stack s 2)"
  let ?walked = "foldl pop_if_equal ?captured (rev parentTrace)"
  have p: "list_all alive parentTrace" using r stored by (rule reachable_stored_alive)
  have lim: "stackTraceLimit s = limit"
    using run_stackTraceLimit [OF r] by (simp add: initial_def)
  have "asyncInit_loop (length parentTrace) parentTrace ?captured
      = Inr (foldl pop_if_equal ?captured (rev (take (length parentTrace) parentTrace)))"
    using p alive_getCallSites by (intro asyncInit_loop_foldl) simp_all
  then have a: "asyncInit_loop (length parentTrace) parentTrace ?captured = Inr ?walked"
    by simp
  have b: "\<exists>s'. asyncInit stack s asyncId ty triggerAsyncId = Inr s' \<and>
              traces s' asyncId =
                Some (take limit (?walked @ (if triggerAsyncId \<noteq> 0 then parentTrace else [])))"
    by (simp add: asyncInit_recent [OF recent stored p] lim)
  have c: "\<exists>k. ?walked = take k ?captured" by (rule foldl_pop_take)
  have d: "?captured \<noteq> [] \<longrightarrow> ?walked \<noteq> []" by (simp add: foldl_pop_nonempty)
  have "pop_if_equal = (\<lambda>trace p. if 1 < length trace \<and> equalCallSite p (last trace) = Inr True
                                    then butlast trace else trace)"
    by (intro ext) (simp add: pop_if_equal_def)
  with a b c d show ?thesis unfolding Let_def by simp
qed

text \<open>
  The claim as it is written lets the walk end at the first parent frame that does not
  equal the last captured frame. Here the trigger's sequence ends with a frame of its own
  ancestry (\<^verbatim>\<open>g.js\<close>): the code passes over it, finds \<^verbatim>\<open>main.js:5:1\<close> one step further and
  removes the duplicate, where the walk of the claim removes nothing.
\<close>

theorem dedup_walk_counterexample:
  "asyncInit_loop 3
     [handleAt ''a.js'' 1 1, handleAt ''main.js'' 5 1, handleAt ''g.js'' 9 3]
     [handleAt ''b.js'' 2 1, handleAt ''main.js'' 5 1]
   = Inr [handleAt ''b.js'' 2 1]
   \<and> spec_walk 3
     [handleAt ''a.js'' 1 1, handleAt ''main.js'' 5 1, handleAt ''g.js'' 9 3]
     [handleAt ''b.js'' 2 1, handleAt ''main.js'' 5 1]
   = [handleAt ''b.js'' 2 1, handleAt ''main.js'' 5 1]"
  by (simp add: numeral_3_eq_3 equalCallSite_cloneCallSite)

theorem asyncInit_dedup_walk_witness:
  "run (initial 10)
     [Init 7 ''TIMER'' 0 (hookFrames @ [frameAt ''g.js'' 9 3]),
      Before 7,
      Init 1 ''PROMISE'' 7 (hookFrames @ [frameAt ''a.js'' 1 1, frameAt ''main.js'' 5 1])]
     = Inr \<lparr>executionScopeInits = {1}, executionScopeDepth = 1,
            traces = [7 \<mapsto> [handleAt ''g.js'' 9 3],
                      1 \<mapsto> [handleAt ''a.js'' 1 1, handleAt ''main.js'' 5 1, handleAt ''g.js'' 9 3]],
            stackTraceLimit = 10\<rparr>
   \<and> (\<exists>s'. asyncInit (hookFrames @ [frameAt ''b.js'' 2 1, frameAt ''main.js'' 5 1])
              \<lparr>executionScopeInits = {1}, executionScopeDepth = 1,
               traces = [7 \<mapsto> [handleAt ''g.js'' 9 3],
                         1 \<mapsto> [handleAt ''a.js'' 1 1, handleAt ''main.js'' 5 1,
                              handleAt ''g.js'' 9 3]],
               stackTraceLimit = 10\<rparr>
              2 ''PROMISE'' 1 = Inr s'
          \<and> traces s' 2
              = Some [handleAt ''b.js'' 2 1, handleAt ''a.js'' 1 1, handleAt ''main.js'' 5 1,
                      handleAt ''g.js'' 9 3])"
proof -
  let ?parent = "[handleAt ''a.js'' 1 1, handleAt ''main.js'' 5 1, handleAt ''g.js'' 9 3]"
  let ?evs = "[Init 7 ''TIMER'' 0 (hookFrames @ [frameAt ''g.js'' 9 3]),
      Before 7,
      Init 1 ''PROMISE'' 7 (hookFrames @ [frameAt ''a.js'' 1 1, frameAt ''main.js'' 5 1])]"
  let ?s = "\<lparr>executionScopeInits = {1::nat}, executionScopeDepth = 1,
             traces = [7 \<mapsto> [handleAt ''g.js'' 9 3], 1 \<mapsto> ?parent], stackTraceLimit = 10\<rparr>"
  let ?stack = "hookFrames @ [frameAt ''b.js'' 2 1, frameAt ''main.js'' 5 1]"
  have r: "run (initial 10) ?evs = Inr ?s"
    by (simp add: initial_def asyncInit_def getCallSites_eq chain_filter_def asyncBefore_def
          Let_def)
  have recent: "1 \<in> executionScopeInits ?s" by simp
  have stored: "traces ?s 1 = Some ?parent" by simp
  have captured: "fst (getCallSites ?stack ?s 2)
      = [handleAt ''b.js'' 2 1, handleAt ''main.js'' 5 1]"
    by (simp add: getCallSites_eq chain_filter_def)
  have walked: "foldl (\<lambda>trace p. if 1 < length trace \<and> equalCallSite p (last trace) = Inr True
                                    then butlast trace else trace)
                  [handleAt ''b.js'' 2 1, handleAt ''main.js'' 5 1] (rev ?parent)
      = [handleAt ''b.js'' 2 1]"
    by (simp add: equalCallSite_cloneCallSite)
  from asyncInit_dedup_walk [OF r recent stored, of ?stack 2 "''PROMISE''"]
  have "\<exists>s'. asyncInit ?stack ?s 2 ''PROMISE'' 1 = Inr s' \<and>
          traces s' 2 = Some (take 10
             (foldl (\<lambda>trace p. if 1 < length trace \<and> equalCallSite p (last trace) = Inr True
                                    then butlast trace else trace)
                  (fst (getCallSites ?stack ?s 2)) (rev ?parent)
              @ (if (1::nat) \<noteq> 0 then ?parent else [])))"
    unfolding Let_def by (elim conjE)
  then have "\<exists>s'. asyncInit ?stack ?s 2 ''PROMISE'' 1 = Inr s' \<and>
          traces s' 2 = Some ([handleAt ''b.js'' 2 1] @ ?parent)"
    unfolding captured walked by simp
  with r show ?thesis by simp
qed

subsection \<open>C2: a trigger without a stored sequence\<close>

text \<open>
  C2. The claim: a trigger that has no stored sequence counts as an empty sequence and
  the init hook completes, also when the trigger is still in \<^verbatim>\<open>executionScopeInits\<close>. The
  code does so only when the trigger is not in the set (\<open>asyncInit_not_recent\<close>). The
  destroy hook removes the stored sequence and leaves the id in the set, and for such a
  trigger line 92 reads \<^verbatim>\<open>.length\<close> of \<^verbatim>\<open>undefined\<close> (\<open>asyncInit_recent_untracked\<close>): in the
  run below resource 1 is created and destroyed, and resource 2, triggered by it in the
  same execution scope, makes the hook throw.
\<close>

theorem destroyed_recent_trigger_throws:
  "run (initial 10)
     [Init 1 ''TIMER'' 0 (hookFrames @ [frameAt ''main.js'' 5 1]),
      Destroy 1,
      Init 2 ''PROMISE'' 1 (hookFrames @ [frameAt ''main.js'' 6 1])]
   = Inl TypeError"
  by (simp add: initial_def asyncInit_def getCallSites_eq asyncDestroy_def Let_def)

subsection \<open>C3: the depth bound\<close>

text \<open>
  C3. After any sequence of events run from the initial state, every sequence in
  \<^verbatim>\<open>traces\<close> has at most \<^verbatim>\<open>Error.stackTraceLimit\<close> frames (and the events leave the limit as
  it was configured). A run ends at the first hook that throws; the states before it are
  those of the shorter runs.
\<close>

theorem depth_bound:
  "run (initial limit) evs = Inr s \<Longrightarrow> traces s asyncId = Some trace \<Longrightarrow>
   length trace \<le> limit \<and> stackTraceLimit s = limit"
proof -
  assume r: "run (initial limit) evs = Inr s" and t: "traces s asyncId = Some trace"
  have "\<forall>i tr. traces (initial limit) i = Some tr
          \<longrightarrow> length tr \<le> stackTraceLimit (initial limit)"
    by (simp add: initial_def)
  with r have "\<forall>i tr. traces s i = Some tr \<longrightarrow> length tr \<le> stackTraceLimit s"
    by (rule run_depth_bound)
  moreover have "stackTraceLimit s = limit"
    using run_stackTraceLimit [OF r] by (simp add: initial_def)
  ultimately show ?thesis using t by simp
qed

theorem depth_bound_witness:
  "run (initial 2)
     [Init 1 ''TIMER'' 0 (hookFrames @ [frameAt ''a.js'' 1 1, frameAt ''main.js'' 5 1]),
      Before 1,
      Init 2 ''PROMISE'' 1 (hookFrames @ [frameAt ''b.js'' 2 1, frameAt ''cb.js'' 7 1])]
   = Inr \<lparr>executionScopeInits = {2}, executionScopeDepth = 1,
          traces = [1 \<mapsto> [handleAt ''a.js'' 1 1, handleAt ''main.js'' 5 1],
                    2 \<mapsto> [handleAt ''b.js'' 2 1, handleAt ''cb.js'' 7 1]],
          stackTraceLimit = 2\<rparr>
   \<and> traces \<lparr>executionScopeInits = {2}, executionScopeDepth = 1,
          traces = [1 \<mapsto> [handleAt ''a.js'' 1 1, handleAt ''main.js'' 5 1],
                    2 \<mapsto> [handleAt ''b.js'' 2 1, handleAt ''cb.js'' 7 1]],
          stackTraceLimit = 2\<rparr> 2
     = Some [handleAt ''b.js'' 2 1, handleAt ''cb.js'' 7 1]
   \<and> length [handleAt ''b.js'' 2 1, handleAt ''cb.js'' 7 1] \<le> 2"
proof -
  let ?s = "\<lparr>executionScopeInits = {2::nat}, executionScopeDepth = 1,
          traces = [1 \<mapsto> [handleAt ''a.js'' 1 1, handleAt ''main.js'' 5 1],
                    2 \<mapsto> [handleAt ''b.js'' 2 1, handleAt ''cb.js'' 7 1]],
          stackTraceLimit = 2\<rparr>"
  have r: "run (initial 2)
     [Init 1 ''TIMER'' 0 (hookFrames @ [frameAt ''a.js'' 1 1, frameAt ''main.js'' 5 1]),
      Before 1,
      Init 2 ''PROMISE'' 1 (hookFrames @ [frameAt ''b.js'' 2 1, frameAt ''cb.js'' 7 1])]
   = Inr ?s"
    by (simp add: initial_def asyncInit_def getCallSites_eq chain_filter_def asyncBefore_def
          Let_def)
  have t: "traces ?s 2 = Some [handleAt ''b.js'' 2 1, handleAt ''cb.js'' 7 1]" by simp
  from depth_bound [OF r t] r t show ?thesis by simp
qed

subsection \<open>C4: ancestry carry-forward\<close>

text \<open>
  C4. Let the init hook for \<open>A\<close> with the root trigger \<open>0\<close> store a sequence \<open>Sa\<close>, and let any
  events follow after which \<open>A\<close> still has that stored sequence and is no longer in
  \<^verbatim>\<open>executionScopeInits\<close> (\<open>A\<close> is an async id, not the reserved \<open>0\<close>). Then the init hook for
  \<open>B\<close> with trigger \<open>A\<close> succeeds and stores the fresh capture for \<open>B\<close> followed by \<open>Sa\<close>, cut to
  the limit.
\<close>

theorem ancestry_carry_forward:
  "step s0 (Init A tyA 0 stackA) = Inr s1 \<Longrightarrow> run s1 evs = Inr s2 \<Longrightarrow>
   traces s2 A = traces s1 A \<Longrightarrow> A \<notin> executionScopeInits s2 \<Longrightarrow> A \<noteq> 0 \<Longrightarrow>
   \<exists>Sa s3. traces s1 A = Some Sa \<and> step s2 (Init B tyB A stackB) = Inr s3 \<and>
           traces s3 B = Some (take (stackTraceLimit s2) (fst (getCallSites stackB s2 2) @ Sa))"
proof -
  assume a: "step s0 (Init A tyA 0 stackA) = Inr s1"
    and same: "traces s2 A = traces s1 A"
    and nr: "A \<notin> executionScopeInits s2" and nz: "A \<noteq> 0"
  from a have "asyncInit stackA s0 A tyA 0 = Inr s1" by simp
  then obtain Sa where Sa: "traces s1 A = Some Sa"
    by (auto elim!: asyncInit_cases)
  with same have "compose s2 A = Sa" by (simp add: compose_def)
  with nz Sa show ?thesis by (simp add: asyncInit_not_recent [OF nr])
qed

theorem ancestry_carry_forward_witness:
  "step (initial 10) (Init 1 ''TIMER'' 0 (hookFrames @ [frameAt ''a.js'' 1 1, frameAt ''main.js'' 5 1]))
     = Inr \<lparr>executionScopeInits = {1}, executionScopeDepth = 0,
            traces = [1 \<mapsto> [handleAt ''a.js'' 1 1, handleAt ''main.js'' 5 1]],
            stackTraceLimit = 10\<rparr>
   \<and> run \<lparr>executionScopeInits = {1}, executionScopeDepth = 0,
          traces = [1 \<mapsto> [handleAt ''a.js'' 1 1, handleAt ''main.js'' 5 1]],
          stackTraceLimit = 10\<rparr> [Before 1]
     = Inr \<lparr>executionScopeInits = {}, executionScopeDepth = 1,
            traces = [1 \<mapsto> [handleAt ''a.js'' 1 1, handleAt ''main.js'' 5 1]],
            stackTraceLimit = 10\<rparr>
   \<and> (1::nat) \<notin> executionScopeInits
         \<lparr>executionScopeInits = {}, executionScopeDepth = 1,
          traces = [1 \<mapsto> [handleAt ''a.js'' 1 1, handleAt ''main.js'' 5 1]],
          stackTraceLimit = 10\<rparr>
   \<and> (\<exists>s3. step \<lparr>executionScopeInits = {}, executionScopeDepth = 1,
                  traces = [1 \<mapsto> [handleAt ''a.js'' 1 1, handleAt ''main.js'' 5 1]],
                  stackTraceLimit = 10\<rparr>
                 (Init 2 ''PROMISE'' 1 (hookFrames @ [frameAt ''b.js'' 2 1, frameAt ''cb.js'' 7 1]))
               = Inr s3
            \<and> traces s3 2 = Some [handleAt ''b.js'' 2 1, handleAt ''cb.js'' 7 1,
                                  handleAt ''a.js'' 1 1, handleAt ''main.js'' 5 1])"
proof -
  let ?Sa = "[handleAt ''a.js'' 1 1, handleAt ''main.js'' 5 1]"
  let ?s1 = "\<lparr>executionScopeInits = {1::nat}, executionScopeDepth = 0,
              traces = [1 \<mapsto> ?Sa], stackTraceLimit = 10\<rparr>"
  let ?s2 = "\<lparr>executionScopeInits = {}::nat set, executionScopeDepth = 1,
              traces = [1 \<mapsto> ?Sa], stackTraceLimit = 10\<rparr>"
  let ?stackB = "hookFrames @ [frameAt ''b.js'' 2 1, frameAt ''cb.js'' 7 1]"
  have a: "step (initial 10)
             (Init 1 ''TIMER'' 0 (hookFrames @ [frameAt ''a.js'' 1 1, frameAt ''main.js'' 5 1]))
           = Inr ?s1"
    by (simp add: initial_def asyncInit_def getCallSites_eq chain_filter_def Let_def)
  have r: "run ?s1 [Before 1] = Inr ?s2"
    by (simp add: asyncBefore_def asyncAfter_def Let_def)
  have same: "traces ?s2 1 = traces ?s1 1" by simp
  have nr: "1 \<notin> executionScopeInits ?s2" by simp
  have nz: "(1::nat) \<noteq> 0" by simp
  have captured: "fst (getCallSites ?stackB ?s2 2) = [handleAt ''b.js'' 2 1, handleAt ''cb.js'' 7 1]"
    by (simp add: getCallSites_eq chain_filter_def)
  from ancestry_carry_forward [OF a r same nr nz, of 2 "''PROMISE''" ?stackB]
  obtain Sa s3 where Sa: "traces ?s1 1 = Some Sa"
    and st: "step ?s2 (Init 2 ''PROMISE'' 1 ?stackB) = Inr s3"
    and tr: "traces s3 2 = Some (take (stackTraceLimit ?s2) (fst (getCallSites ?stackB ?s2 2) @ Sa))"
    by (elim exE conjE)
  from Sa have "Sa = ?Sa" by simp
  with tr have "traces s3 2 = Some [handleAt ''b.js'' 2 1, handleAt ''cb.js'' 7 1,
                                   handleAt ''a.js'' 1 1, handleAt ''main.js'' 5 1]"
    unfolding captured by simp
  with st have "\<exists>s3. step ?s2 (Init 2 ''PROMISE'' 1 ?stackB) = Inr s3 \<and>
      traces s3 2 = Some [handleAt ''b.js'' 2 1, handleAt ''cb.js'' 7 1,
                          handleAt ''a.js'' 1 1, handleAt ''main.js'' 5 1]"
    by (intro exI conjI)
  with a r nr show ?thesis by (intro conjI)
qed

subsection \<open>C5: root triggers\<close>

text \<open>
  C5. In any state reached from the initial one by events none of which creates a
  resource under the reserved id \<open>0\<close>, the init hook with the root trigger \<open>0\<close> succeeds and
  stores the fresh capture, cut to the limit, and nothing else: no stored sequence is
  appended and the dedup walk is not entered.
\<close>

theorem root_trigger_stores_capture:
  "run (initial limit) evs = Inr s \<Longrightarrow> \<forall>e\<in>set evs. \<not> tracks_root e \<Longrightarrow>
   \<exists>s'. step s (Init asyncId ty 0 stack) = Inr s' \<and>
        traces s' asyncId = Some (take limit (fst (getCallSites stack s 2)))"
proof -
  assume r: "run (initial limit) evs = Inr s" and wf: "\<forall>e\<in>set evs. \<not> tracks_root e"
  have "0 \<notin> executionScopeInits (initial limit)" by (simp add: initial_def)
  with r wf have nr: "0 \<notin> executionScopeInits s" by (rule run_root_not_recent)
  have "stackTraceLimit s = limit"
    using run_stackTraceLimit [OF r] by (simp add: initial_def)
  then show ?thesis by (simp add: asyncInit_not_recent [OF nr])
qed

theorem root_trigger_stores_capture_witness:
  "run (initial 10)
     [Init 1 ''TIMER'' 0 (hookFrames @ [frameAt ''a.js'' 1 1, frameAt ''main.js'' 5 1])]
     = Inr \<lparr>executionScopeInits = {1}, executionScopeDepth = 0,
            traces = [1 \<mapsto> [handleAt ''a.js'' 1 1, handleAt ''main.js'' 5 1]],
            stackTraceLimit = 10\<rparr>
   \<and> \<not> tracks_root
         (Init 1 ''TIMER'' 0 (hookFrames @ [frameAt ''a.js'' 1 1, frameAt ''main.js'' 5 1]))
   \<and> (\<exists>s'. step \<lparr>executionScopeInits = {1}, executionScopeDepth = 0,
                  traces = [1 \<mapsto> [handleAt ''a.js'' 1 1, handleAt ''main.js'' 5 1]],
                  stackTraceLimit = 10\<rparr>
                 (Init 2 ''TCPWRAP'' 0 (hookFrames @ [frameAt ''c.js'' 3 1, frameAt ''main.js'' 5 1]))
               = Inr s'
            \<and> traces s' 2 = Some [handleAt ''c.js'' 3 1, handleAt ''main.js'' 5 1])"
proof -
  let ?evs = "[Init 1 ''TIMER'' 0 (hookFrames @ [frameAt ''a.js'' 1 1, frameAt ''main.js'' 5 1])]"
  let ?s = "\<lparr>executionScopeInits = {1::nat}, executionScopeDepth = 0,
             traces = [1 \<mapsto> [handleAt ''a.js'' 1 1, handleAt ''main.js'' 5 1]],
             stackTraceLimit = 10\<rparr>"
  let ?stack = "hookFrames @ [frameAt ''c.js'' 3 1, frameAt ''main.js'' 5 1]"
  have r: "run (initial 10) ?evs = Inr ?s"
    by (simp add: initial_def asyncInit_def getCallSites_eq chain_filter_def Let_def)
  have wf: "\<forall>e\<in>set ?evs. \<not> tracks_root e" by simp
  have captured: "fst (getCallSites ?stack ?s 2) = [handleAt ''c.js'' 3 1, handleAt ''main.js'' 5 1]"
    by (simp add: getCallSites_eq chain_filter_def)
  from root_trigger_stores_capture [OF r wf, of 2 "''TCPWRAP''" ?stack]
  have "\<exists>s'. step ?s (Init 2 ''TCPWRAP'' 0 ?stack) = Inr s' \<and>
          traces s' 2 = Some [handleAt ''c.js'' 3 1, handleAt ''main.js'' 5 1]"
    unfolding captured by simp
  with r show ?thesis by simp
qed

subsection \<open>C6: frame equality\<close>

text \<open>
  C6, as amended. For the handles \<open>a\<close> and \<open>b\<close> of any two descriptors, \<open>equalCallSite a b\<close>
  returns, and returns true exactly when none of the file name, line number and column
  number that \<open>a\<close> and \<open>b\<close> report is \<^verbatim>\<open>null\<close> and the three are pairwise identical; a \<^verbatim>\<open>null\<close>
  field on either handle makes it false. \<^verbatim>\<open>null\<close> is the one value the guard of line 66
  tests (it tests the fields of \<open>a\<close>; a \<^verbatim>\<open>null\<close> field of \<open>b\<close> fails the comparison with the
  non-null field of \<open>a\<close>). Identity is \<^verbatim>\<open>===\<close>, under which \<^verbatim>\<open>undefined\<close> is a value like any
  other: it passes the guard and equals itself.
\<close>

theorem equalCallSite_iff:
  "equalCallSite (cloneCallSite x) (cloneCallSite y) =
     Inr (getFileName x \<noteq> JSNull \<and> getLineNumber x \<noteq> JSNull \<and> getColumnNumber x \<noteq> JSNull \<and>
          getFileName y \<noteq> JSNull \<and> getLineNumber y \<noteq> JSNull \<and> getColumnNumber y \<noteq> JSNull \<and>
          getFileName x = getFileName y \<and> getLineNumber x = getLineNumber y \<and>
          getColumnNumber x = getColumnNumber y)
   \<and> (JSNull \<in> {getFileName x, getLineNumber x, getColumnNumber x,
                  getFileName y, getLineNumber y, getColumnNumber y}
        \<longrightarrow> equalCallSite (cloneCallSite x) (cloneCallSite y) = Inr False)"
  by (auto simp add: equalCallSite_cloneCallSite)

text \<open>
  The claim as it is written makes every absent field force the result false. A file
  name that is \<^verbatim>\<open>undefined\<close> is absent (V8 reports it for code of a script without a name,
  as code under \<^verbatim>\<open>eval\<close> is), and two frames with such a file name at the same line and
  column are equal for the code.
\<close>

theorem equalCallSite_undefined_counterexample:
  "getFileName \<lparr>getFileName = JSUndefined, getLineNumber = JSNumber 1,
                 getColumnNumber = JSNumber 1\<rparr> = JSUndefined
   \<and> equalCallSite
         (cloneCallSite \<lparr>getFileName = JSUndefined, getLineNumber = JSNumber 1,
                         getColumnNumber = JSNumber 1\<rparr>)
         (cloneCallSite \<lparr>getFileName = JSUndefined, getLineNumber = JSNumber 1,
                         getColumnNumber = JSNumber 1\<rparr>) = Inr True"
  by (simp add: equalCallSite_cloneCallSite)

theorem equalCallSite_iff_witness:
  "equalCallSite (handleAt ''main.js'' 5 1) (handleAt ''main.js'' 5 1) = Inr True
   \<and> equalCallSite (handleAt ''main.js'' 5 1) (handleAt ''main.js'' 5 2) = Inr False
   \<and> getLineNumber \<lparr>getFileName = JSString ''main.js'', getLineNumber = JSNull,
                     getColumnNumber = JSNumber 1\<rparr> = JSNull
   \<and> equalCallSite (handleAt ''main.js'' 5 1)
         (cloneCallSite \<lparr>getFileName = JSString ''main.js'', getLineNumber = JSNull,
                         getColumnNumber = JSNumber 1\<rparr>) = Inr False
   \<and> equalCallSite
         (cloneCallSite \<lparr>getFileName = JSString ''main.js'', getLineNumber = JSNull,
                         getColumnNumber = JSNumber 1\<rparr>)
         (cloneCallSite \<lparr>getFileName = JSString ''main.js'', getLineNumber = JSNull,
                         getColumnNumber = JSNumber 1\<rparr>) = Inr False"
proof -
  let ?m = "frameAt ''main.js'' 5 1"
  let ?n = "\<lparr>getFileName = JSString ''main.js'', getLineNumber = JSNull,
             getColumnNumber = JSNumber 1\<rparr>"
  have 1: "equalCallSite (cloneCallSite ?m) (cloneCallSite ?m) = Inr True"
    using equalCallSite_iff [of ?m ?m] by simp
  have 2: "equalCallSite (cloneCallSite ?m) (handleAt ''main.js'' 5 2) = Inr False"
    using equalCallSite_iff [of ?m "frameAt ''main.js'' 5 2"] by simp
  have 3: "getLineNumber ?n = JSNull" by simp
  have 4: "equalCallSite (cloneCallSite ?m) (cloneCallSite ?n) = Inr False"
    using equalCallSite_iff [of ?m ?n] by simp
  have 5: "equalCallSite (cloneCallSite ?n) (cloneCallSite ?n) = Inr False"
    using equalCallSite_iff [of ?n ?n] by simp
  from 1 2 3 4 5 show ?thesis by (intro conjI)
qed

subsection \<open>C7: teardown\<close>

text \<open>
  C7. The destroy event runs \<open>asyncDestroy\<close>, after which \<^verbatim>\<open>traces\<close> has no entry for the
  id, \<open>compose\<close> for it is the empty sequence and the extension of a stack trace appends
  nothing; for an id that had no entry the state is unchanged.
\<close>

theorem asyncDestroy_cleanup:
  "step s (Destroy asyncId) = Inr (asyncDestroy s asyncId) \<and>
   traces (asyncDestroy s asyncId) asyncId = None \<and>
   compose (asyncDestroy s asyncId) asyncId = [] \<and>
   chain_extend (asyncDestroy s asyncId) asyncId frames = frames \<and>
   (traces s asyncId = None \<longrightarrow> asyncDestroy s asyncId = s)"
  by (simp add: asyncDestroy_def compose_def chain_extend_def fun_upd_idem)

theorem asyncDestroy_cleanup_witness:
  "compose \<lparr>executionScopeInits = {1, 2}, executionScopeDepth = 1,
            traces = [1 \<mapsto> [handleAt ''main.js'' 5 1],
                      2 \<mapsto> [handleAt ''b.js'' 2 1, handleAt ''main.js'' 5 1]],
            stackTraceLimit = 10\<rparr> 1 = [handleAt ''main.js'' 5 1]
   \<and> compose (asyncDestroy
          \<lparr>executionScopeInits = {1, 2}, executionScopeDepth = 1,
           traces = [1 \<mapsto> [handleAt ''main.js'' 5 1],
                     2 \<mapsto> [handleAt ''b.js'' 2 1, handleAt ''main.js'' 5 1]],
           stackTraceLimit = 10\<rparr> 1) 1 = []
   \<and> compose (asyncDestroy
          \<lparr>executionScopeInits = {1, 2}, executionScopeDepth = 1,
           traces = [1 \<mapsto> [handleAt ''main.js'' 5 1],
                     2 \<mapsto> [handleAt ''b.js'' 2 1, handleAt ''main.js'' 5 1]],
           stackTraceLimit = 10\<rparr> 1) 2 = [handleAt ''b.js'' 2 1, handleAt ''main.js'' 5 1]
   \<and> traces (initial 10) 3 = None
   \<and> asyncDestroy (initial 10) 3 = initial 10"
proof -
  let ?s = "\<lparr>executionScopeInits = {1::nat, 2}, executionScopeDepth = 1,
           traces = [1 \<mapsto> [handleAt ''main.js'' 5 1],
                     2 \<mapsto> [handleAt ''b.js'' 2 1, handleAt ''main.js'' 5 1]],
           stackTraceLimit = 10\<rparr>"
  have 1: "compose ?s 1 = [handleAt ''main.js'' 5 1]" by (simp add: compose_def)
  have 2: "compose (asyncDestroy ?s 1) 1 = []"
    using asyncDestroy_cleanup [of ?s 1 "[]"] by (elim conjE)
  have 3: "compose (asyncDestroy ?s 1) 2 = [handleAt ''b.js'' 2 1, handleAt ''main.js'' 5 1]"
    by (simp add: compose_def asyncDestroy_def)
  have 4: "traces (initial 10) 3 = None" by (simp add: initial_def)
  have 5: "asyncDestroy (initial 10) 3 = initial 10"
    using asyncDestroy_cleanup [of "initial 10" 3 "[]"] 4 by (elim conjE) (rule mp)
  from 1 2 3 4 5 show ?thesis by (intro conjI)
qed

subsection \<open>C8: when the recent inits are cleared\<close>

text \<open>
  C8. After any sequence of events run from the initial state the variable
  \<^verbatim>\<open>executionScopeDepth\<close> is the nesting depth of the sequence, the number of before
  events less the number of after events, which is not negative when every after event
  is matched by an earlier before event. At the next event: when it is a before event
  met at nesting depth \<open>0\<close>, the set \<^verbatim>\<open>executionScopeInits\<close> is empty afterwards and the
  nesting depth is \<open>1\<close>; in every other case (a before event at any other depth, an after,
  init or destroy event) no id leaves the set.
\<close>

theorem inits_cleared_only_at_outermost_before:
  "run (initial limit) evs = Inr s \<Longrightarrow> step s e = Inr s' \<Longrightarrow>
     executionScopeDepth s = nesting evs
     \<and> executionScopeDepth s' = nesting (evs @ [e])
     \<and> (matched evs \<longrightarrow> 0 \<le> nesting evs)
     \<and> (if (\<exists>asyncId. e = Before asyncId) \<and> nesting evs = 0
        then executionScopeInits s' = {} \<and> nesting (evs @ [e]) = 1
        else executionScopeInits s \<subseteq> executionScopeInits s')"
proof -
  assume r: "run (initial limit) evs = Inr s" and st: "step s e = Inr s'"
  have d: "executionScopeDepth s = nesting evs"
    using run_depth [OF r] by (simp add: initial_def)
  have d': "executionScopeDepth s' = nesting (evs @ [e])"
    using step_depth [OF st] d by (simp add: nesting_def)
  have m: "matched evs \<longrightarrow> 0 \<le> nesting evs"
    using matched_from_nesting [of 0 evs] by (simp add: matched_def)
  have c: "if (\<exists>asyncId. e = Before asyncId) \<and> nesting evs = 0
        then executionScopeInits s' = {} \<and> nesting (evs @ [e]) = 1
        else executionScopeInits s \<subseteq> executionScopeInits s'"
  proof (cases "(\<exists>asyncId. e = Before asyncId) \<and> nesting evs = 0")
    case True
    with step_inits [OF st] d have "executionScopeInits s' = {}" by simp
    moreover from True have "nesting (evs @ [e]) = 1" by (auto simp add: nesting_def)
    ultimately show ?thesis using True by simp
  next
    case False
    with step_inits [OF st] d have "executionScopeInits s \<subseteq> executionScopeInits s'"
      by auto
    with False show ?thesis by auto
  qed
  from d d' m c show ?thesis by (intro conjI)
qed

theorem inits_cleared_only_at_outermost_before_witness:
  "run (initial 10)
     [Before 1, After 1, Init 5 ''TIMER'' 0 (hookFrames @ [frameAt ''a.js'' 1 1])]
     = Inr \<lparr>executionScopeInits = {5}, executionScopeDepth = 0,
            traces = [5 \<mapsto> [handleAt ''a.js'' 1 1]], stackTraceLimit = 10\<rparr>
   \<and> matched [Before 1, After 1, Init 5 ''TIMER'' 0 (hookFrames @ [frameAt ''a.js'' 1 1])]
   \<and> nesting [Before 1, After 1, Init 5 ''TIMER'' 0 (hookFrames @ [frameAt ''a.js'' 1 1])] = 0
   \<and> step \<lparr>executionScopeInits = {5}, executionScopeDepth = 0,
           traces = [5 \<mapsto> [handleAt ''a.js'' 1 1]], stackTraceLimit = 10\<rparr> (Before 2)
     = Inr \<lparr>executionScopeInits = {}, executionScopeDepth = 1,
            traces = [5 \<mapsto> [handleAt ''a.js'' 1 1]], stackTraceLimit = 10\<rparr>
   \<and> executionScopeInits
        \<lparr>executionScopeInits = {}::nat set, executionScopeDepth = 1,
         traces = [5 \<mapsto> [handleAt ''a.js'' 1 1]], stackTraceLimit = 10\<rparr> = {}
   \<and> run (initial 10)
     [Before 1, Init 5 ''TIMER'' 0 (hookFrames @ [frameAt ''a.js'' 1 1])]
     = Inr \<lparr>executionScopeInits = {5}, executionScopeDepth = 1,
            traces = [5 \<mapsto> [handleAt ''a.js'' 1 1]], stackTraceLimit = 10\<rparr>
   \<and> nesting [Before 1, Init 5 ''TIMER'' 0 (hookFrames @ [frameAt ''a.js'' 1 1])] = 1
   \<and> step \<lparr>executionScopeInits = {5}, executionScopeDepth = 1,
           traces = [5 \<mapsto> [handleAt ''a.js'' 1 1]], stackTraceLimit = 10\<rparr> (Before 2)
     = Inr \<lparr>executionScopeInits = {5}, executionScopeDepth = 2,
            traces = [5 \<mapsto> [handleAt ''a.js'' 1 1]], stackTraceLimit = 10\<rparr>
   \<and> executionScopeInits
        \<lparr>executionScopeInits = {5::nat}, executionScopeDepth = 1,
         traces = [5 \<mapsto> [handleAt ''a.js'' 1 1]], stackTraceLimit = 10\<rparr>
      \<subseteq> executionScopeInits
        \<lparr>executionScopeInits = {5::nat}, executionScopeDepth = 2,
         traces = [5 \<mapsto> [handleAt ''a.js'' 1 1]], stackTraceLimit = 10\<rparr>"
proof -
  let ?init = "Init 5 ''TIMER'' 0 (hookFrames @ [frameAt ''a.js'' 1 1])"
  let ?a = "\<lparr>executionScopeInits = {5::nat}, executionScopeDepth = 0,
             traces = [5 \<mapsto> [handleAt ''a.js'' 1 1]], stackTraceLimit = 10\<rparr>"
  let ?a' = "\<lparr>executionScopeInits = {}::nat set, executionScopeDepth = 1,
              traces = [5 \<mapsto> [handleAt ''a.js'' 1 1]], stackTraceLimit = 10\<rparr>"
  let ?b = "\<lparr>executionScopeInits = {5::nat}, executionScopeDepth = 1,
             traces = [5 \<mapsto> [handleAt ''a.js'' 1 1]], stackTraceLimit = 10\<rparr>"
  let ?b' = "\<lparr>executionScopeInits = {5::nat}, executionScopeDepth = 2,
              traces = [5 \<mapsto> [handleAt ''a.js'' 1 1]], stackTraceLimit = 10\<rparr>"
  have ra: "run (initial 10) [Before 1, After 1, ?init] = Inr ?a"
    by (simp add: initial_def asyncInit_def getCallSites_eq chain_filter_def asyncBefore_def
          asyncAfter_def Let_def)
  have rb: "run (initial 10) [Before 1, ?init] = Inr ?b"
    by (simp add: initial_def asyncInit_def getCallSites_eq chain_filter_def asyncBefore_def
          Let_def)
  have ma: "matched [Before 1, After 1, ?init]" by (simp add: matched_def)
  have na: "nesting [Before 1, After 1, ?init] = 0" by (simp add: nesting_def)
  have nb: "nesting [Before 1, ?init] = 1" by (simp add: nesting_def)
  have a: "step ?a (Before 2) = Inr ?a'" by (simp add: asyncBefore_def)
  have b: "step ?b (Before 2) = Inr ?b'" by (simp add: asyncBefore_def)
  have 1: "executionScopeInits ?a' = {}"
    using inits_cleared_only_at_outermost_before [OF ra a] na by simp
  have 2: "executionScopeInits ?b \<subseteq> executionScopeInits ?b'"
    using inits_cleared_only_at_outermost_before [OF rb b] nb by simp
  from ra ma na a 1 rb nb b 2 show ?thesis by (intro conjI)
qed

subsection \<open>C9: frame capture and the stack trace limit\<close>

text \<open>
  C9. \<open>getCallSites\<close> with skip count \<open>k\<close> asks the frame source for the frames while the
  limit is the configured one plus \<open>k\<close>, with \<^verbatim>\<open>slice: k\<close>, and returns the state it was given:
  the limit is back at its value. With the frame source as section 6 of the specification
  describes it, the \<open>k\<close> innermost frames are dropped from as many as \<open>limit + k\<close> frames of the
  call chain, which leaves \<open>limit\<close> frames when the chain has them (fewer when it is
  shorter), before the filter removes the frames of the instrumentation; the result has
  at most \<open>limit\<close> frames.
\<close>

theorem getCallSites_limit:
  "getCallSites stack s k =
     (map cloneCallSite (chain_callSite (s\<lparr>stackTraceLimit := stackTraceLimit s + k\<rparr>) stack k), s)
   \<and> chain_callSite (s\<lparr>stackTraceLimit := stackTraceLimit s + k\<rparr>) stack k
       = chain_filter (drop k (take (stackTraceLimit s + k) stack))
   \<and> length (drop k (take (stackTraceLimit s + k) stack))
       = min (stackTraceLimit s) (length stack - k)
   \<and> length (fst (getCallSites stack s k)) \<le> stackTraceLimit s
   \<and> stackTraceLimit (snd (getCallSites stack s k)) = stackTraceLimit s"
  using length_getCallSites [of stack s k]
  by (simp add: getCallSites_def chain_callSite_def Let_def)

theorem getCallSites_limit_witness:
  "getCallSites
     (hookFrames @ [frameAt ''internal/async_hooks.js'' 40 3, frameAt ''c.js'' 3 1,
                    frameAt ''b.js'' 2 1, frameAt ''a.js'' 1 1])
     (initial 3) 2
   = ([handleAt ''c.js'' 3 1, handleAt ''b.js'' 2 1], initial 3)"
proof -
  let ?stack = "hookFrames @ [frameAt ''internal/async_hooks.js'' 40 3, frameAt ''c.js'' 3 1,
                    frameAt ''b.js'' 2 1, frameAt ''a.js'' 1 1]"
  have "chain_callSite (initial 3\<lparr>stackTraceLimit := stackTraceLimit (initial 3) + 2\<rparr>) ?stack 2
      = [frameAt ''c.js'' 3 1, frameAt ''b.js'' 2 1]"
    by (simp add: chain_callSite_def chain_filter_def initial_def)
  with getCallSites_limit [of ?stack "initial 3" 2] show ?thesis by simp
qed

subsection \<open>C10: a handle always finds its descriptor\<close>




end
